theory Spec2Isabelle
  imports Main "HOL-Library.Word"
begin

unbundle bit_operations_syntax

section \<open>Go values: bytes, uint32, panics, byte slices on a heap\<close>

type_synonym byte = "8 word"
type_synonym uint32 = "32 word"

text \<open>
  A call either returns or panics. \<open>Panic msg\<close> is an explicit \<^verbatim>\<open>panic("msg")\<close> of the
  source; the other constructors are the run-time panics of Go that the source can reach:
  an index expression out of range, a slice expression out of range, an integer division
  by zero.
\<close>

datatype panic =
    Panic string
  | IndexOutOfRange
  | SliceBoundsOutOfRange
  | DivideByZero

text \<open>
  The heap holds the backing arrays of byte slices; an address is a position in the list,
  and allocation appends. A \<^verbatim>\<open>[]byte\<close> value is Go's slice header: the pointer to its first
  element (backing array \<open>array\<close>, position \<open>off\<close> in it), \<open>len\<close> and \<open>cap\<close>. Two slice
  headers with the same \<open>array\<close> share storage: a write through one is seen through the
  other.
\<close>

type_synonym heap = "byte list list"

record slice =
  array :: nat
  off :: nat
  len :: nat
  cap :: nat

text \<open>What Go guarantees of every slice value (not checked by the program).\<close>

definition valid_slice :: "heap \<Rightarrow> slice \<Rightarrow> bool" where
  "valid_slice h s \<longleftrightarrow>
     array s < length h \<and> len s \<le> cap s \<and> off s + cap s \<le> length (h ! array s)"

text \<open>The elements \<^verbatim>\<open>s[0], ..., s[len(s)-1]\<close>.\<close>

definition slice_bytes :: "heap \<Rightarrow> slice \<Rightarrow> byte list" where
  "slice_bytes h s = map (\<lambda>i. (h ! array s) ! (off s + i)) [0..<len s]"

text \<open>\<^verbatim>\<open>s[i]\<close> as a value; the index is a Go integer, checked against \<open>0 \<le> i < len(s)\<close>.\<close>

definition slice_get :: "heap \<Rightarrow> slice \<Rightarrow> int \<Rightarrow> panic + byte" where
  "slice_get h s i =
     (if 0 \<le> i \<and> i < int (len s) then Inr ((h ! array s) ! (off s + nat i))
      else Inl IndexOutOfRange)"

text \<open>\<^verbatim>\<open>s[i] = v\<close>; a panic leaves the heap as it was.\<close>

definition slice_set :: "heap \<Rightarrow> slice \<Rightarrow> int \<Rightarrow> byte \<Rightarrow> (panic + unit) \<times> heap" where
  "slice_set h s i v =
     (if 0 \<le> i \<and> i < int (len s)
      then (Inr (), h[array s := (h ! array s)[off s + nat i := v]])
      else (Inl IndexOutOfRange, h))"

text \<open>\<^verbatim>\<open>s[i] op= x\<close>: the element is read and written at the one index \<open>i\<close>.\<close>

definition slice_modify :: "heap \<Rightarrow> slice \<Rightarrow> int \<Rightarrow> (byte \<Rightarrow> byte) \<Rightarrow> (panic + unit) \<times> heap" where
  "slice_modify h s i f =
     (case slice_get h s i of
        Inl e \<Rightarrow> (Inl e, h)
      | Inr v \<Rightarrow> slice_set h s i (f v))"

text \<open>\<^verbatim>\<open>s[:n]\<close>: same pointer and capacity, length \<open>n\<close>; Go checks \<open>n \<le> cap(s)\<close>.\<close>

definition slice_prefix :: "slice \<Rightarrow> nat \<Rightarrow> panic + slice" where
  "slice_prefix s n = (if n \<le> cap s then Inr (s\<lparr>len := n\<rparr>) else Inl SliceBoundsOutOfRange)"

text \<open>\<^verbatim>\<open>make([]byte, n)\<close>: a fresh backing array of \<open>n\<close> zero bytes.\<close>

definition make_bytes :: "nat \<Rightarrow> heap \<Rightarrow> slice \<times> heap" where
  "make_bytes n h = (\<lparr>array = length h, off = 0, len = n, cap = n\<rparr>, h @ [replicate n 0])"

section \<open>The source: bitfield.go\<close>

text \<open>
  \<^verbatim>\<open>type Bitfield struct { b []byte; length uint32 }\<close>. The methods take a \<^verbatim>\<open>*Bitfield\<close> but
  never assign to its fields, only to the elements of \<^verbatim>\<open>b.b\<close>: the struct is a value here
  and the bytes live on the heap.
\<close>

record Bitfield =
  b :: slice
  length' :: uint32

text \<open>\<^verbatim>\<open>func divMod32(a, b uint32) (uint32, uint32) { return a / b, a % b }\<close>\<close>

definition divMod32 :: "uint32 \<Rightarrow> uint32 \<Rightarrow> panic + (uint32 \<times> uint32)" where
  "divMod32 x y = (if y = 0 then Inl DivideByZero else Inr (x div y, x mod y))"

definition calcSize :: "uint32 \<Rightarrow> panic + (uint32 \<times> uint32)" where
  "calcSize length0 =
     (case divMod32 length0 8 of
        Inl e \<Rightarrow> Inl e
      | Inr (nBytes, nLastBits) \<Rightarrow>
          (let lastByteIncomplete = (nLastBits \<noteq> 0)
           in Inr (if lastByteIncomplete then nBytes + 1 else nBytes, nLastBits)))"

text \<open>\<^verbatim>\<open>return &Bitfield{make([]byte, (length+7)/8), length}\<close>, in uint32 arithmetic.\<close>

definition New :: "uint32 \<Rightarrow> heap \<Rightarrow> Bitfield \<times> heap" where
  "New length0 h =
     (case make_bytes (unat ((length0 + 7) div 8)) h of
        (s, h') \<Rightarrow> (\<lparr>b = s, length' = length0\<rparr>, h'))"

text \<open>
  \<^verbatim>\<open>uint32(len(b))\<close> keeps the low 32 bits of the \<^verbatim>\<open>int\<close> \<open>len(b)\<close>. In
  \<^verbatim>\<open>0xff >> nLastBits\<close> the constant takes the type of the byte it is combined with.
\<close>

definition NewBytes :: "slice \<Rightarrow> uint32 \<Rightarrow> heap \<Rightarrow> (panic + Bitfield) \<times> heap" where
  "NewBytes bs length0 h =
     (case calcSize length0 of
        Inl e \<Rightarrow> (Inl e, h)
      | Inr (nBytes, nLastBits) \<Rightarrow>
          if (of_nat (len bs) :: uint32) < nBytes
          then (Inl (Panic ''not enough bytes in slice for specified length''), h)
          else
            (case (if nLastBits \<noteq> 0
                   then slice_modify h bs (int (len bs) - 1)
                          (\<lambda>v. v AND NOT (drop_bit (unat nLastBits) (0xff :: byte)))
                   else (Inr (), h)) of
               (Inl e, h') \<Rightarrow> (Inl e, h')
             | (Inr _, h') \<Rightarrow>
                 (case slice_prefix bs (unat nBytes) of
                    Inl e \<Rightarrow> (Inl e, h')
                  | Inr s \<Rightarrow> (Inr \<lparr>b = s, length' = length0\<rparr>, h'))))"

definition Bytes :: "Bitfield \<Rightarrow> slice" where
  "Bytes bf = b bf"

definition Len :: "Bitfield \<Rightarrow> uint32" where
  "Len bf = length' bf"

definition checkIndex :: "Bitfield \<Rightarrow> uint32 \<Rightarrow> panic + unit" where
  "checkIndex bf i = (if i \<ge> Len bf then Inl (Panic ''index out of bound'') else Inr ())"

text \<open>\<^verbatim>\<open>b.b[div] |= 1 << (7 - mod)\<close>: the shift is a byte shift by a uint32 count.\<close>

definition Set :: "Bitfield \<Rightarrow> uint32 \<Rightarrow> heap \<Rightarrow> (panic + unit) \<times> heap" where
  "Set bf i h =
     (case checkIndex bf i of
        Inl e \<Rightarrow> (Inl e, h)
      | Inr _ \<Rightarrow>
          (case divMod32 i 8 of
             Inl e \<Rightarrow> (Inl e, h)
           | Inr (div0, mod0) \<Rightarrow>
               slice_modify h (b bf) (uint div0)
                 (\<lambda>v. v OR push_bit (unat (7 - mod0)) (1 :: byte))))"

definition Clear :: "Bitfield \<Rightarrow> uint32 \<Rightarrow> heap \<Rightarrow> (panic + unit) \<times> heap" where
  "Clear bf i h =
     (case checkIndex bf i of
        Inl e \<Rightarrow> (Inl e, h)
      | Inr _ \<Rightarrow>
          (case divMod32 i 8 of
             Inl e \<Rightarrow> (Inl e, h)
           | Inr (div0, mod0) \<Rightarrow>
               slice_modify h (b bf) (uint div0)
                 (\<lambda>v. v AND NOT (push_bit (unat (7 - mod0)) (1 :: byte)))))"

definition SetTo :: "Bitfield \<Rightarrow> uint32 \<Rightarrow> bool \<Rightarrow> heap \<Rightarrow> (panic + unit) \<times> heap" where
  "SetTo bf i value0 h =
     (case checkIndex bf i of
        Inl e \<Rightarrow> (Inl e, h)
      | Inr _ \<Rightarrow> if value0 then Set bf i h else Clear bf i h)"

definition Test :: "Bitfield \<Rightarrow> uint32 \<Rightarrow> heap \<Rightarrow> panic + bool" where
  "Test bf i h =
     (case checkIndex bf i of
        Inl e \<Rightarrow> Inl e
      | Inr _ \<Rightarrow>
          (case divMod32 i 8 of
             Inl e \<Rightarrow> Inl e
           | Inr (div0, mod0) \<Rightarrow>
               (case slice_get h (b bf) (uint div0) of
                  Inl e \<Rightarrow> Inl e
                | Inr v \<Rightarrow> Inr ((v AND push_bit (unat (7 - mod0)) (1 :: byte)) > 0))))"

text \<open>
  The loop \<^verbatim>\<open>for i := start; i < b.length; i++\<close>. Inside the loop \<open>i < b.length\<close>, so
  \<open>i++\<close> does not wrap and the distance to \<open>b.length\<close> shrinks.
\<close>

function FirstSet_loop :: "Bitfield \<Rightarrow> heap \<Rightarrow> uint32 \<Rightarrow> panic + (uint32 \<times> bool)" where
  "FirstSet_loop bf h i =
     (if i < length' bf
      then (case Test bf i h of
              Inl e \<Rightarrow> Inl e
            | Inr t \<Rightarrow> if t then Inr (i, True) else FirstSet_loop bf h (i + 1))
      else Inr (0, False))"
  by pat_completeness auto
termination
proof (relation "measure (\<lambda>(bf, h, i). unat (length' bf) - unat i)")
  show "wf (measure (\<lambda>(bf, h, i). unat (length' bf) - unat i))"
    by simp
next
  fix bf :: Bitfield and h :: heap and i :: uint32 and t :: bool
  assume "i < length' bf"
  then have lt: "unat i < unat (length' bf)"
    by (simp add: word_less_nat_alt)
  moreover have "unat (length' bf) < 2 ^ LENGTH(32)"
    by (rule unsigned_less)
  ultimately have "unat i + unat (1 :: uint32) < 2 ^ LENGTH(32)"
    by simp
  then have "unat (i + 1) = unat i + unat (1 :: uint32)"
    by (simp only: unat_add_lem)
  with lt show "((bf, h, i + 1), (bf, h, i)) \<in> measure (\<lambda>(bf, h, i). unat (length' bf) - unat i)"
    by simp
qed

definition FirstSet :: "Bitfield \<Rightarrow> uint32 \<Rightarrow> heap \<Rightarrow> panic + (uint32 \<times> bool)" where
  "FirstSet bf start h = FirstSet_loop bf h start"

function FirstClear_loop :: "Bitfield \<Rightarrow> heap \<Rightarrow> uint32 \<Rightarrow> panic + (uint32 \<times> bool)" where
  "FirstClear_loop bf h i =
     (if i < length' bf
      then (case Test bf i h of
              Inl e \<Rightarrow> Inl e
            | Inr t \<Rightarrow> if \<not> t then Inr (i, True) else FirstClear_loop bf h (i + 1))
      else Inr (0, False))"
  by pat_completeness auto
termination
proof (relation "measure (\<lambda>(bf, h, i). unat (length' bf) - unat i)")
  show "wf (measure (\<lambda>(bf, h, i). unat (length' bf) - unat i))"
    by simp
next
  fix bf :: Bitfield and h :: heap and i :: uint32 and t :: bool
  assume "i < length' bf"
  then have lt: "unat i < unat (length' bf)"
    by (simp add: word_less_nat_alt)
  moreover have "unat (length' bf) < 2 ^ LENGTH(32)"
    by (rule unsigned_less)
  ultimately have "unat i + unat (1 :: uint32) < 2 ^ LENGTH(32)"
    by simp
  then have "unat (i + 1) = unat i + unat (1 :: uint32)"
    by (simp only: unat_add_lem)
  with lt show "((bf, h, i + 1), (bf, h, i)) \<in> measure (\<lambda>(bf, h, i). unat (length' bf) - unat i)"
    by simp
qed

definition FirstClear :: "Bitfield \<Rightarrow> uint32 \<Rightarrow> heap \<Rightarrow> panic + (uint32 \<times> bool)" where
  "FirstClear bf start h = FirstClear_loop bf h start"

text \<open>\<^verbatim>\<open>for i := range b.b { b.b[i] = 0 }\<close>: the indices \<open>0, ..., len(b.b)-1\<close> in order.\<close>

fun ClearAll_loop :: "slice \<Rightarrow> nat list \<Rightarrow> heap \<Rightarrow> (panic + unit) \<times> heap" where
  "ClearAll_loop s [] h = (Inr (), h)"
| "ClearAll_loop s (i # is) h =
     (case slice_set h s (int i) 0 of
        (Inl e, h') \<Rightarrow> (Inl e, h')
      | (Inr _, h') \<Rightarrow> ClearAll_loop s is h')"

definition ClearAll :: "Bitfield \<Rightarrow> heap \<Rightarrow> (panic + unit) \<times> heap" where
  "ClearAll bf h = ClearAll_loop (b bf) [0..<len (b bf)] h"

definition countCache :: "byte list" where
  "countCache = [
      0, 1, 1, 2, 1, 2, 2, 3, 1, 2, 2, 3, 2, 3, 3, 4,
      1, 2, 2, 3, 2, 3, 3, 4, 2, 3, 3, 4, 3, 4, 4, 5,
      1, 2, 2, 3, 2, 3, 3, 4, 2, 3, 3, 4, 3, 4, 4, 5,
      2, 3, 3, 4, 3, 4, 4, 5, 3, 4, 4, 5, 4, 5, 5, 6,
      1, 2, 2, 3, 2, 3, 3, 4, 2, 3, 3, 4, 3, 4, 4, 5,
      2, 3, 3, 4, 3, 4, 4, 5, 3, 4, 4, 5, 4, 5, 5, 6,
      2, 3, 3, 4, 3, 4, 4, 5, 3, 4, 4, 5, 4, 5, 5, 6,
      3, 4, 4, 5, 4, 5, 5, 6, 4, 5, 5, 6, 5, 6, 6, 7,
      1, 2, 2, 3, 2, 3, 3, 4, 2, 3, 3, 4, 3, 4, 4, 5,
      2, 3, 3, 4, 3, 4, 4, 5, 3, 4, 4, 5, 4, 5, 5, 6,
      2, 3, 3, 4, 3, 4, 4, 5, 3, 4, 4, 5, 4, 5, 5, 6,
      3, 4, 4, 5, 4, 5, 5, 6, 4, 5, 5, 6, 5, 6, 6, 7,
      2, 3, 3, 4, 3, 4, 4, 5, 3, 4, 4, 5, 4, 5, 5, 6,
      3, 4, 4, 5, 4, 5, 5, 6, 4, 5, 5, 6, 5, 6, 6, 7,
      3, 4, 4, 5, 4, 5, 5, 6, 4, 5, 5, 6, 5, 6, 6, 7,
      4, 5, 5, 6, 5, 6, 6, 7, 5, 6, 6, 7, 6, 7, 7, 8]"

text \<open>
  \<^verbatim>\<open>for _, v := range b.b { total += uint32(countCache[v]) }\<close>: \<open>total\<close> is a uint32 and
  wraps; the index \<open>v\<close> is a byte and the table has 256 entries.
\<close>

definition Count :: "Bitfield \<Rightarrow> heap \<Rightarrow> uint32" where
  "Count bf h =
     fold (\<lambda>v total. total + (ucast (countCache ! unat v) :: uint32)) (slice_bytes h (b bf)) 0"

definition All' :: "Bitfield \<Rightarrow> heap \<Rightarrow> bool" where
  "All' bf h \<longleftrightarrow> Count bf h = length' bf"

text \<open>
  Modelled from the spec: \<^verbatim>\<open>hex.EncodeToString\<close> of Go's \<^verbatim>\<open>encoding/hex\<close>, which is not
  part of the repository. The spec has it as the lowercase hex encoding of the buffer:
  two digits per byte, the high nibble first.
\<close>

definition hextable :: string where
  "hextable = ''0123456789abcdef''"

definition hex_EncodeToString :: "byte list \<Rightarrow> string" where
  "hex_EncodeToString src =
     concat (map (\<lambda>v. [hextable ! unat (drop_bit 4 v), hextable ! unat (v AND 0x0f)]) src)"

definition Hex :: "Bitfield \<Rightarrow> heap \<Rightarrow> string" where
  "Hex bf h = hex_EncodeToString (slice_bytes h (b bf))"

declare FirstSet_loop.simps [simp del] FirstClear_loop.simps [simp del]

section \<open>Notions used in the statements\<close>

text \<open>
  Invariant I1 of the data model: the buffer has exactly \<open>ceil(length / 8)\<close> bytes.
\<close>

definition I1 :: "Bitfield \<Rightarrow> bool" where
  "I1 bf \<longleftrightarrow> len (b bf) = (unat (length' bf) + 7) div 8"

text \<open>
  Invariant I2, the padding: bit \<open>k\<close> of the buffer is bit \<open>7 - k mod 8\<close> of byte
  \<open>k div 8\<close>, and the bits from \<open>length\<close> up to the end of the buffer are 0.
\<close>

definition padding_clear :: "heap \<Rightarrow> Bitfield \<Rightarrow> bool" where
  "padding_clear h bf \<longleftrightarrow>
     (\<forall>k \<in> {unat (length' bf) ..< 8 * len (b bf)}.
        \<not> bit (slice_bytes h (b bf) ! (k div 8)) (7 - k mod 8))"

text \<open>The bits of a byte and of a buffer in index order, the most significant bit first.\<close>

definition byte_bits :: "byte \<Rightarrow> bool list" where
  "byte_bits v = map (\<lambda>m. bit v (7 - m)) [0..<8]"

definition all_bits :: "byte list \<Rightarrow> bool list" where
  "all_bits xs = concat (map byte_bits xs)"

text \<open>
  A caller's sequence of mutating calls on one Bitfield. A panic unwinds the caller: the
  calls after it do not run, and the heap stays as the panicking call left it.
\<close>

datatype call = CallSet uint32 | CallClear uint32 | CallSetTo uint32 bool

fun call_index :: "call \<Rightarrow> uint32" where
  "call_index (CallSet i) = i"
| "call_index (CallClear i) = i"
| "call_index (CallSetTo i v) = i"

fun do_call :: "Bitfield \<Rightarrow> call \<Rightarrow> heap \<Rightarrow> (panic + unit) \<times> heap" where
  "do_call bf (CallSet i) h = Set bf i h"
| "do_call bf (CallClear i) h = Clear bf i h"
| "do_call bf (CallSetTo i v) h = SetTo bf i v h"

fun do_calls :: "Bitfield \<Rightarrow> call list \<Rightarrow> heap \<Rightarrow> (panic + unit) \<times> heap" where
  "do_calls bf [] h = (Inr (), h)"
| "do_calls bf (c # cs) h =
     (case do_call bf c h of
        (Inl e, h') \<Rightarrow> (Inl e, h')
      | (Inr _, h') \<Rightarrow> do_calls bf cs h')"

text \<open>A slice of \<open>2 ^ 32\<close> bytes, all \<open>0xff\<close>: a \<^verbatim>\<open>[]byte\<close> of 4 GiB on a 64-bit platform.\<close>

definition big_slice :: slice where
  "big_slice = \<lparr>array = 0, off = 0, len = 4294967296, cap = 4294967296\<rparr>"

definition big_heap :: heap where
  "big_heap = [replicate 4294967296 0xff]"

section \<open>Arithmetic of indices and masks\<close>

lemma divMod32_8: "divMod32 x 8 = Inr (x div 8, x mod 8)"
  by (simp add: divMod32_def)

lemma unat_div8: "unat ((x :: uint32) div 8) = unat x div 8"
  by (simp add: unat_div)

lemma unat_mod8: "unat ((x :: uint32) mod 8) = unat x mod 8"
  by (simp add: unat_mod)

lemma unat_7_minus_mod8: "unat (7 - (x :: uint32) mod 8) = 7 - unat x mod 8"
proof -
  have "x mod 8 \<le> 7"
    by (simp add: word_le_nat_alt unat_mod)
  then have "unat (7 - x mod 8) = unat (7 :: uint32) - unat (x mod 8)"
    by (rule unat_sub)
  then show ?thesis by (simp add: unat_mod)
qed

lemma uint_lt_int: "(uint (x :: uint32) < int n) = (unat x < n)"
  by (metis of_nat_less_iff uint_nat)

lemma test_mask: "((v :: byte) AND 2 ^ n > 0) = bit v n"
  by (simp add: word_greater_zero_iff and_exp_eq_0_iff_not_bit)

lemma bit_set_mask: "n < 8 \<Longrightarrow> bit ((v :: byte) OR 2 ^ n) m = (bit v m \<or> m = n)"
  by (auto simp add: bit_simps)

lemma bit_clear_mask: "bit ((v :: byte) AND NOT (2 ^ n)) m = (bit v m \<and> m \<noteq> n)"
  by (auto simp add: bit_simps dest: bit_imp_le_length)

lemma same_byte_other_bit:
  fixes i j :: uint32
  assumes "j \<noteq> i" and "unat j div 8 = unat i div 8"
  shows "7 - unat j mod 8 \<noteq> 7 - unat i mod 8"
proof -
  from assms(1) have "unat j \<noteq> unat i"
    by (simp add: word_unat_eq_iff)
  with assms(2) have "unat j mod 8 \<noteq> unat i mod 8"
    by (metis div_mult_mod_eq)
  moreover have "unat j mod 8 < 8" and "unat i mod 8 < 8"
    by simp_all
  ultimately show ?thesis by arith
qed

section \<open>Slices and the heap\<close>

lemma slice_modify_eq:
  "slice_modify h s i f =
     (if 0 \<le> i \<and> i < int (len s)
      then (Inr (), h[array s := (h ! array s)[off s + nat i := f ((h ! array s) ! (off s + nat i))]])
      else (Inl IndexOutOfRange, h))"
  by (simp add: slice_modify_def slice_get_def slice_set_def)

lemma length_slice_bytes [simp]: "length (slice_bytes h s) = len s"
  by (simp add: slice_bytes_def)

lemma nth_slice_bytes: "k < len s \<Longrightarrow> slice_bytes h s ! k = h ! array s ! (off s + k)"
  by (simp add: slice_bytes_def)

lemma slice_bytes_fresh:
  "length xs = n \<Longrightarrow> slice_bytes (h @ [xs]) \<lparr>array = length h, off = 0, len = n, cap = c\<rparr> = xs"
  by (auto simp add: slice_bytes_def map_nth)

lemma nth_heap_upd:
  "h[a := (h ! a)[j := v]] ! a ! m =
     (if a < length h \<and> j < length (h ! a) \<and> m = j then v else h ! a ! m)"
proof (cases "a < length h")
  case True
  then show ?thesis
    by (cases "m = j"; cases "j < length (h ! a)") (auto simp add: list_update_beyond)
next
  case False
  then show ?thesis by (simp add: list_update_beyond)
qed

lemma length_heap_upd: "length (h[a := (h ! a)[j := v]] ! a') = length (h ! a')"
  by (cases "a' = a"; cases "a < length h") (auto simp add: list_update_beyond)

section \<open>What the operations compute\<close>

lemma New_eq:
  "New L h =
     (\<lparr>b = \<lparr>array = length h, off = 0, len = unat ((L + 7) div 8), cap = unat ((L + 7) div 8)\<rparr>,
       length' = L\<rparr>,
      h @ [replicate (unat ((L + 7) div 8)) 0])"
  by (simp add: New_def make_bytes_def)

lemma Test_eq:
  "Test bf i h =
     (if length' bf \<le> i then Inl (Panic ''index out of bound'')
      else if unat i div 8 < len (b bf)
        then Inr (bit (slice_bytes h (b bf) ! (unat i div 8)) (7 - unat i mod 8))
        else Inl IndexOutOfRange)"
  by (simp add: Test_def checkIndex_def Len_def divMod32_8 slice_get_def uint_lt_int
      unat_div8 unat_7_minus_mod8 test_mask nth_slice_bytes)

lemma Set_eq:
  "Set bf i h =
     (if length' bf \<le> i then (Inl (Panic ''index out of bound''), h)
      else if unat i div 8 < len (b bf)
        then (Inr (), h[array (b bf) := (h ! array (b bf))[off (b bf) + unat i div 8 :=
                 h ! array (b bf) ! (off (b bf) + unat i div 8) OR 2 ^ (7 - unat i mod 8)]])
        else (Inl IndexOutOfRange, h))"
  by (simp add: Set_def checkIndex_def Len_def divMod32_8 slice_modify_eq uint_lt_int
      unat_div8 unat_7_minus_mod8)

lemma Clear_eq:
  "Clear bf i h =
     (if length' bf \<le> i then (Inl (Panic ''index out of bound''), h)
      else if unat i div 8 < len (b bf)
        then (Inr (), h[array (b bf) := (h ! array (b bf))[off (b bf) + unat i div 8 :=
                 h ! array (b bf) ! (off (b bf) + unat i div 8) AND NOT (2 ^ (7 - unat i mod 8))]])
        else (Inl IndexOutOfRange, h))"
  by (simp add: Clear_def checkIndex_def Len_def divMod32_8 slice_modify_eq uint_lt_int
      unat_div8 unat_7_minus_mod8)

lemma SetTo_eq: "SetTo bf i v h = (if v then Set bf i h else Clear bf i h)"
  by (simp add: SetTo_def checkIndex_def Len_def Set_eq Clear_eq)

lemma Test_Set_other:
  assumes "j \<noteq> i"
  shows "Test bf j (snd (Set bf i h)) = Test bf j h"
proof (cases "unat j div 8 = unat i div 8")
  case True
  with assms have "7 - unat j mod 8 \<noteq> 7 - unat i mod 8"
    by (rule same_byte_other_bit)
  with True show ?thesis
    by (simp add: Test_eq Set_eq nth_slice_bytes nth_heap_upd bit_set_mask)
next
  case False
  then show ?thesis
    by (simp add: Test_eq Set_eq nth_slice_bytes nth_heap_upd)
qed

lemma Test_Clear_other:
  assumes "j \<noteq> i"
  shows "Test bf j (snd (Clear bf i h)) = Test bf j h"
proof (cases "unat j div 8 = unat i div 8")
  case True
  with assms have "7 - unat j mod 8 \<noteq> 7 - unat i mod 8"
    by (rule same_byte_other_bit)
  with True show ?thesis
    by (simp add: Test_eq Clear_eq nth_slice_bytes nth_heap_upd bit_clear_mask)
next
  case False
  then show ?thesis
    by (simp add: Test_eq Clear_eq nth_slice_bytes nth_heap_upd)
qed

lemma map_length_heap_upd: "map length (h[a := (h ! a)[j := v]]) = map length h"
  by (rule nth_equalityI) (simp_all add: length_heap_upd)

lemma map_length_Set: "map length (snd (Set bf i h)) = map length h"
  by (simp add: Set_eq map_length_heap_upd)

lemma map_length_Clear: "map length (snd (Clear bf i h)) = map length h"
  by (simp add: Clear_eq map_length_heap_upd)

section \<open>Scanning\<close>

lemma unat_succ_lt:
  fixes i :: uint32
  assumes "i < m"
  shows "unat (i + 1) = Suc (unat i)"
proof -
  from assms have "unat i < unat m"
    by (simp add: word_less_nat_alt)
  moreover have "unat m < 2 ^ LENGTH(32)"
    by (rule unsigned_less)
  ultimately have "unat i + unat (1 :: uint32) < 2 ^ LENGTH(32)"
    by simp
  then have "unat (i + 1) = unat i + unat (1 :: uint32)"
    by (simp only: unat_add_lem)
  then show ?thesis by simp
qed

lemma I1_byte_in_range:
  assumes "I1 bf" and "i < length' bf"
  shows "unat i div 8 < len (b bf)"
proof -
  from assms(2) have "unat i < unat (length' bf)"
    by (simp add: word_less_nat_alt)
  then have "unat i div 8 < (unat (length' bf) + 7) div 8"
    by arith
  with assms(1) show ?thesis by (simp add: I1_def)
qed

lemma Test_in_range:
  assumes "I1 bf" and "i < length' bf"
  shows "Test bf i h = Inr (bit (slice_bytes h (b bf) ! (unat i div 8)) (7 - unat i mod 8))"
  using I1_byte_in_range [OF assms] assms(2) by (simp add: Test_eq not_le)

lemma scan_step:
  fixes i :: uint32
  assumes inside: "i < m" and here: "\<not> P i"
    and rec: "if found
            then i + 1 \<le> r \<and> r < m \<and> P r \<and> (\<forall>j. i + 1 \<le> j \<and> j < r \<longrightarrow> \<not> P j)
            else r = 0 \<and> (\<forall>j. i + 1 \<le> j \<and> j < m \<longrightarrow> \<not> P j)"
  shows "if found
            then i \<le> r \<and> r < m \<and> P r \<and> (\<forall>j. i \<le> j \<and> j < r \<longrightarrow> \<not> P j)
            else r = 0 \<and> (\<forall>j. i \<le> j \<and> j < m \<longrightarrow> \<not> P j)"
proof -
  have suc: "unat (i + 1) = Suc (unat i)"
    using inside by (rule unat_succ_lt)
  have below: "j = i \<or> i + 1 \<le> j" if "i \<le> j" for j
    using suc that by (auto simp add: word_le_nat_alt word_unat_eq_iff)
  have up: "i \<le> j" if "i + 1 \<le> j" for j
    using suc that by (simp add: word_le_nat_alt)
  show ?thesis
  proof (cases found)
    case True
    with rec have r: "i + 1 \<le> r" "r < m" "P r"
      and before: "\<And>j. i + 1 \<le> j \<Longrightarrow> j < r \<Longrightarrow> \<not> P j"
      by simp_all
    have "\<not> P j" if "i \<le> j" "j < r" for j
      using below [OF that(1)] here before [OF _ that(2)] by blast
    with r up True show ?thesis by simp
  next
    case False
    with rec have r: "r = 0" and none: "\<And>j. i + 1 \<le> j \<Longrightarrow> j < m \<Longrightarrow> \<not> P j"
      by simp_all
    have "\<not> P j" if "i \<le> j" "j < m" for j
      using below [OF that(1)] here none [OF _ that(2)] by blast
    with r False show ?thesis by simp
  qed
qed

lemma FirstSet_loop_spec:
  assumes "I1 bf"
  shows "case FirstSet_loop bf h i of
           Inl e \<Rightarrow> False
         | Inr (r, found) \<Rightarrow>
             if found
             then i \<le> r \<and> r < length' bf \<and> Test bf r h = Inr True \<and>
                  (\<forall>j. i \<le> j \<and> j < r \<longrightarrow> Test bf j h \<noteq> Inr True)
             else r = 0 \<and> (\<forall>j. i \<le> j \<and> j < length' bf \<longrightarrow> Test bf j h \<noteq> Inr True)"
  using assms
proof (induction bf h i rule: FirstSet_loop.induct)
  case (1 bf h i)
  show ?case
  proof (cases "i < length' bf")
    case False
    then have "FirstSet_loop bf h i = Inr (0, False)"
      by (subst FirstSet_loop.simps) simp
    with False show ?thesis
      by auto
  next
    case inside: True
    from Test_in_range [OF \<open>I1 bf\<close> inside]
    obtain t where t: "Test bf i h = Inr t" by blast
    show ?thesis
    proof (cases t)
      case True
      with inside t have "FirstSet_loop bf h i = Inr (i, True)"
        by (subst FirstSet_loop.simps) simp
      with inside t True show ?thesis
        by auto
    next
      case False
      with inside t have step: "FirstSet_loop bf h i = FirstSet_loop bf h (i + 1)"
        by (subst FirstSet_loop.simps) simp
      have here: "\<not> Test bf i h = Inr True"
        using t False by simp
      from "1.IH" [OF inside t False \<open>I1 bf\<close>] show ?thesis
        unfolding step
        by (auto split: sum.splits prod.splits
            dest!: scan_step [where P = "\<lambda>j. Test bf j h = Inr True", OF inside here])
    qed
  qed
qed

lemma FirstClear_loop_spec:
  assumes "I1 bf"
  shows "case FirstClear_loop bf h i of
           Inl e \<Rightarrow> False
         | Inr (r, found) \<Rightarrow>
             if found
             then i \<le> r \<and> r < length' bf \<and> Test bf r h = Inr False \<and>
                  (\<forall>j. i \<le> j \<and> j < r \<longrightarrow> Test bf j h \<noteq> Inr False)
             else r = 0 \<and> (\<forall>j. i \<le> j \<and> j < length' bf \<longrightarrow> Test bf j h \<noteq> Inr False)"
  using assms
proof (induction bf h i rule: FirstClear_loop.induct)
  case (1 bf h i)
  show ?case
  proof (cases "i < length' bf")
    case False
    then have "FirstClear_loop bf h i = Inr (0, False)"
      by (subst FirstClear_loop.simps) simp
    with False show ?thesis
      by auto
  next
    case inside: True
    from Test_in_range [OF \<open>I1 bf\<close> inside]
    obtain t where t: "Test bf i h = Inr t" by blast
    show ?thesis
    proof (cases t)
      case False
      with inside t have "FirstClear_loop bf h i = Inr (i, True)"
        by (subst FirstClear_loop.simps) simp
      with inside t False show ?thesis
        by auto
    next
      case True
      with inside t have step: "FirstClear_loop bf h i = FirstClear_loop bf h (i + 1)"
        by (subst FirstClear_loop.simps) simp
      have here: "\<not> Test bf i h = Inr False"
        using t True by simp
      have "\<not> \<not> t"
        using True by simp
      from "1.IH" [OF inside t this \<open>I1 bf\<close>] show ?thesis
        unfolding step
        by (auto split: sum.splits prod.splits
            dest!: scan_step [where P = "\<lambda>j. Test bf j h = Inr False", OF inside here])
    qed
  qed
qed

section \<open>Counting\<close>

lemma table_check:
  "list_all (\<lambda>n. unat (countCache ! n) = length (filter (\<lambda>x. x) (byte_bits (of_nat n)))) [0..<256]"
  by code_simp

lemma countCache_popcount: "unat (countCache ! unat v) = length (filter (\<lambda>x. x) (byte_bits v))"
proof -
  have "unat v < 256"
    using unsigned_less [of v, where 'a = nat] by simp
  with table_check have "unat (countCache ! unat v) = length (filter (\<lambda>x. x) (byte_bits (of_nat (unat v))))"
    by (simp add: list_all_iff)
  then show ?thesis by simp
qed

lemma length_byte_bits [simp]: "length (byte_bits v) = 8"
  by (simp add: byte_bits_def)

lemma length_all_bits [simp]: "length (all_bits xs) = 8 * length xs"
  by (induction xs) (simp_all add: all_bits_def)

lemma nth_byte_bits: "m < 8 \<Longrightarrow> byte_bits v ! m = bit v (7 - m)"
  by (simp add: byte_bits_def)

lemma nth_all_bits:
  "k < 8 * length xs \<Longrightarrow> all_bits xs ! k = bit (xs ! (k div 8)) (7 - k mod 8)"
proof (induction xs arbitrary: k)
  case Nil
  then show ?case by simp
next
  case (Cons x xs)
  show ?case
  proof (cases "k < 8")
    case True
    then show ?thesis
      by (simp add: all_bits_def nth_append nth_byte_bits)
  next
    case False
    define j where "j = k - 8"
    with False have k: "k = j + 8"
      by simp
    with Cons.prems have "j < 8 * length xs"
      by simp
    then have "all_bits xs ! j = bit (xs ! (j div 8)) (7 - j mod 8)"
      by (rule Cons.IH)
    moreover have "all_bits (x # xs) ! (j + 8) = all_bits xs ! j"
      by (simp add: all_bits_def nth_append)
    moreover have "(j + 8) div 8 = Suc (j div 8)" and "(j + 8) mod 8 = j mod 8"
      by simp_all
    ultimately show ?thesis
      unfolding k by simp
  qed
qed

lemma count_all_bits:
  "length (filter (\<lambda>x. x) (all_bits xs)) = sum_list (map (\<lambda>v. unat (countCache ! unat v)) xs)"
  by (induction xs) (simp_all add: all_bits_def countCache_popcount)

lemma fold_count:
  "fold (\<lambda>v total. total + (ucast (countCache ! unat v) :: uint32)) xs (of_nat a) =
     of_nat (a + sum_list (map (\<lambda>v. unat (countCache ! unat v)) xs))"
proof (induction xs arbitrary: a)
  case Nil
  then show ?case by simp
next
  case (Cons x xs)
  have "(of_nat a :: uint32) + ucast (countCache ! unat x) = of_nat (a + unat (countCache ! unat x))"
    by simp
  then show ?case
    using Cons.IH [of "a + unat (countCache ! unat x)"] by (simp add: add.assoc)
qed

lemma Count_eq: "Count bf h = of_nat (length (filter (\<lambda>x. x) (all_bits (slice_bytes h (b bf)))))"
  using fold_count [of "slice_bytes h (b bf)" 0] by (simp add: Count_def count_all_bits)

lemma I1_bits_cover:
  assumes "I1 bf"
  shows "unat (length' bf) \<le> 8 * len (b bf)"
  using assms unfolding I1_def by arith

lemma Test_all_bits:
  assumes "I1 bf" and "i < length' bf"
  shows "Test bf i h = Inr (all_bits (slice_bytes h (b bf)) ! unat i)"
proof -
  from assms have "unat i div 8 < len (b bf)"
    by (rule I1_byte_in_range)
  then have "unat i < 8 * length (slice_bytes h (b bf))"
    by simp
  then show ?thesis
    by (simp add: nth_all_bits Test_in_range [OF assms])
qed

lemma set_indices_image:
  assumes "I1 bf"
  shows "unat ` {i. i < length' bf \<and> Test bf i h = Inr True} =
           {k. k < unat (length' bf) \<and> all_bits (slice_bytes h (b bf)) ! k}"
    (is "unat ` ?S = ?T")
proof (rule set_eqI, rule iffI)
  fix k
  assume "k \<in> unat ` ?S"
  then obtain i where i: "k = unat i" "i < length' bf" "Test bf i h = Inr True"
    by blast
  with Test_all_bits [OF assms i(2), of h] show "k \<in> ?T"
    by (simp add: word_less_nat_alt)
next
  fix k
  assume "k \<in> ?T"
  then have k: "k < unat (length' bf)" and bk: "all_bits (slice_bytes h (b bf)) ! k"
    by simp_all
  have "unat (length' bf) < 2 ^ LENGTH(32)"
    by (rule unsigned_less)
  with k have "k < 2 ^ LENGTH(32)"
    by simp
  then have uk: "unat (of_nat k :: uint32) = k"
    by (simp only: unat_of_nat mod_less)
  with k have lt: "(of_nat k :: uint32) < length' bf"
    by (simp add: word_less_nat_alt)
  from Test_all_bits [OF assms lt, of h] bk uk have "Test bf (of_nat k) h = Inr True"
    by simp
  with lt have "of_nat k \<in> ?S" by simp
  then show "k \<in> unat ` ?S"
    using uk [symmetric] by (rule rev_image_eqI)
qed

lemma Count_consistent:
  assumes "I1 bf" and "padding_clear h bf"
  shows "unat (Count bf h) = card {i. i < length' bf \<and> Test bf i h = Inr True}"
proof -
  let ?bits = "all_bits (slice_bytes h (b bf))"
  let ?L = "unat (length' bf)"
  have cover: "?L \<le> 8 * len (b bf)"
    using assms(1) by (rule I1_bits_cover)
  have pad: "\<not> ?bits ! k" if "?L \<le> k" "k < 8 * len (b bf)" for k
    using that assms(2) by (simp add: padding_clear_def nth_all_bits)
  have "k < ?L" if "k < 8 * len (b bf)" "?bits ! k" for k
    using pad [of k] that by (cases "k < ?L") simp_all
  with cover have "{k. k < length ?bits \<and> ?bits ! k} = {k. k < ?L \<and> ?bits ! k}"
    by auto
  then have "length (filter (\<lambda>x. x) ?bits) = card {k. k < ?L \<and> ?bits ! k}"
    by (simp add: length_filter_conv_card)
  also have "\<dots> = card (unat ` {i. i < length' bf \<and> Test bf i h = Inr True})"
    by (simp add: set_indices_image [OF assms(1)])
  also have "\<dots> = card {i. i < length' bf \<and> Test bf i h = Inr True}"
    by (rule card_image) (rule inj_onI, simp only: word_unat_eq_iff)
  finally have eq: "length (filter (\<lambda>x. x) ?bits) = card {i. i < length' bf \<and> Test bf i h = Inr True}" .
  have "card {k. k < ?L \<and> ?bits ! k} \<le> card {k. k < ?L}"
    by (rule card_mono) auto
  then have "card {k. k < ?L \<and> ?bits ! k} \<le> ?L"
    by simp
  moreover have "?L < 2 ^ LENGTH(32)"
    by (rule unsigned_less)
  ultimately have "card {k. k < ?L \<and> ?bits ! k} < 2 ^ LENGTH(32)"
    by simp
  with \<open>length (filter (\<lambda>x. x) ?bits) = card {k. k < ?L \<and> ?bits ! k}\<close>
  have "length (filter (\<lambda>x. x) ?bits) < 2 ^ LENGTH(32)"
    by simp
  then have "unat (of_nat (length (filter (\<lambda>x. x) ?bits)) :: uint32) = length (filter (\<lambda>x. x) ?bits)"
    by (simp only: unat_of_nat mod_less)
  with eq show ?thesis
    by (simp add: Count_eq)
qed

section \<open>The padding under mutation\<close>

lemma bit_after_Set:
  assumes "k \<noteq> unat i"
  shows "bit (snd (Set bf i h) ! array (b bf) ! (off (b bf) + k div 8)) (7 - k mod 8) =
         bit (h ! array (b bf) ! (off (b bf) + k div 8)) (7 - k mod 8)"
proof (cases "k div 8 = unat i div 8")
  case True
  with assms have "k mod 8 \<noteq> unat i mod 8"
    by (metis div_mult_mod_eq)
  moreover have "k mod 8 < 8" and "unat i mod 8 < 8"
    by simp_all
  ultimately have "7 - k mod 8 \<noteq> 7 - unat i mod 8"
    by arith
  with True show ?thesis
    by (simp add: Set_eq nth_heap_upd bit_set_mask)
next
  case False
  then show ?thesis
    by (simp add: Set_eq nth_heap_upd)
qed

lemma bit_after_Clear:
  assumes "bit (snd (Clear bf i h) ! array (b bf) ! (off (b bf) + j)) m"
  shows "bit (h ! array (b bf) ! (off (b bf) + j)) m"
  using assms by (simp add: Clear_eq nth_heap_upd bit_clear_mask split: if_splits)

lemma padding_clear_iff:
  "padding_clear h bf \<longleftrightarrow>
     (\<forall>k. unat (length' bf) \<le> k \<and> k < 8 * len (b bf) \<longrightarrow>
        \<not> bit (h ! array (b bf) ! (off (b bf) + k div 8)) (7 - k mod 8))"
proof -
  have "slice_bytes h (b bf) ! (k div 8) = h ! array (b bf) ! (off (b bf) + k div 8)"
    if "k < 8 * len (b bf)" for k
  proof -
    from that have "k div 8 < len (b bf)" by arith
    then show ?thesis by (rule nth_slice_bytes)
  qed
  then show ?thesis
    by (auto simp add: padding_clear_def)
qed

lemma padding_clear_Set:
  assumes "padding_clear h bf"
  shows "padding_clear (snd (Set bf i h)) bf"
proof (cases "i < length' bf")
  case True
  then have "unat i < unat (length' bf)"
    by (simp add: word_less_nat_alt)
  then have "k \<noteq> unat i" if "unat (length' bf) \<le> k" for k
    using that by simp
  with assms show ?thesis
    by (simp add: padding_clear_iff bit_after_Set)
next
  case False
  then show ?thesis
    using assms by (simp add: Set_eq not_less)
qed

lemma padding_clear_Clear:
  assumes "padding_clear h bf"
  shows "padding_clear (snd (Clear bf i h)) bf"
  using assms by (auto simp add: padding_clear_iff dest: bit_after_Clear)

lemma padding_clear_do_call:
  assumes "padding_clear h bf"
  shows "padding_clear (snd (do_call bf c h)) bf"
  using assms by (cases c) (simp_all add: SetTo_eq padding_clear_Set padding_clear_Clear)

lemma padding_clear_do_calls:
  assumes "padding_clear h bf"
  shows "padding_clear (snd (do_calls bf cs h)) bf"
  using assms
proof (induction cs arbitrary: h)
  case Nil
  then show ?case by simp
next
  case (Cons c cs)
  from Cons.prems have step: "padding_clear (snd (do_call bf c h)) bf"
    by (rule padding_clear_do_call)
  show ?case
  proof (cases "do_call bf c h")
    case (Pair r h')
    with step have h': "padding_clear h' bf" by simp
    show ?thesis
    proof (cases r)
      case (Inl e)
      with Pair h' show ?thesis by simp
    next
      case (Inr u)
      with Pair Cons.IH [OF h'] show ?thesis by simp
    qed
  qed
qed

lemma slice_bytes_New: "slice_bytes (snd (New L h)) (b (fst (New L h))) = replicate (unat ((L + 7) div 8)) 0"
  by (simp add: New_eq slice_bytes_fresh)

lemma padding_clear_New: "padding_clear (snd (New L h)) (fst (New L h))"
proof -
  have "\<not> bit (replicate (unat ((L + 7) div 8)) (0 :: byte) ! (k div 8)) (7 - k mod 8)"
    if "k < 8 * unat ((L + 7) div 8)" for k
  proof -
    from that have "k div 8 < unat ((L + 7) div 8)" by arith
    then show ?thesis by simp
  qed
  moreover have "len (b (fst (New L h))) = unat ((L + 7) div 8)"
    by (simp add: New_eq)
  ultimately show ?thesis
    unfolding padding_clear_def slice_bytes_New by auto
qed

lemma I1_New:
  assumes "unat L + 7 < 2 ^ 32"
  shows "I1 (fst (New L h))"
proof -
  from assms have "unat (L + 7) = unat L + 7"
    by (simp add: unat_word_ariths)
  then show ?thesis
    by (simp add: New_eq I1_def unat_div8)
qed

lemma New_overflow_empty:
  assumes "\<not> unat L + 7 < 2 ^ 32"
  shows "len (b (fst (New L h))) = 0"
proof -
  have "unat L < 2 ^ 32"
    using unsigned_less [of L, where 'a = nat] by simp
  with assms have ge: "(2 :: nat) ^ 32 \<le> unat L + 7" and lt: "unat L + 7 - 2 ^ 32 < 8"
    by simp_all
  have "(unat L + 7) mod 2 ^ 32 = (unat L + 7 - 2 ^ 32) mod 2 ^ 32"
    using ge by (rule le_mod_geq)
  also have "\<dots> = unat L + 7 - 2 ^ 32"
    using lt by simp
  finally have "(unat L + 7) mod 2 ^ 32 < 8"
    using lt by simp
  then have "unat (L + 7) div 8 = 0"
    by (simp add: unat_word_ariths)
  then show ?thesis
    by (simp add: New_eq unat_div8)
qed

section \<open>Import from a caller's slice\<close>

lemma calcSize_eq:
  "calcSize L = Inr (if L mod 8 \<noteq> 0 then L div 8 + 1 else L div 8, L mod 8)"
  by (simp add: calcSize_def divMod32_8)

lemma mod8_eq_0_iff: "((L :: uint32) mod 8 = 0) = (unat L mod 8 = 0)"
  by (simp add: word_unat_eq_iff unat_mod8)

lemma unat_nBytes:
  "unat (if (L :: uint32) mod 8 \<noteq> 0 then L div 8 + 1 else L div 8) = (unat L + 7) div 8"
proof -
  have "unat L < 2 ^ 32"
    using unsigned_less [of L, where 'a = nat] by simp
  then have "unat L div 8 + 1 < 2 ^ 32"
    by simp
  then have "unat (L div 8) + unat (1 :: uint32) < 2 ^ LENGTH(32)"
    by (simp add: unat_div8)
  then have "unat (L div 8 + 1) = unat (L div 8) + unat (1 :: uint32)"
    by (simp only: unat_add_lem)
  then have plus: "unat (L div 8 + 1) = unat L div 8 + 1"
    by (simp add: unat_div8)
  show ?thesis
  proof (cases "unat L mod 8 = 0")
    case True
    then have "(unat L + 7) div 8 = unat L div 8" by presburger
    with True show ?thesis by (simp add: mod8_eq_0_iff unat_div8)
  next
    case False
    then have "(unat L + 7) div 8 = unat L div 8 + 1" by presburger
    with False plus show ?thesis by (simp add: mod8_eq_0_iff)
  qed
qed

lemma NewBytes_eq:
  assumes "len bs \<le> cap bs"
  shows "NewBytes bs L h =
     (if len bs mod 2 ^ 32 < (unat L + 7) div 8
      then (Inl (Panic ''not enough bytes in slice for specified length''), h)
      else (Inr \<lparr>b = bs\<lparr>len := (unat L + 7) div 8\<rparr>, length' = L\<rparr>,
            if unat L mod 8 \<noteq> 0
            then h[array bs := (h ! array bs)[off bs + (len bs - 1) :=
                   h ! array bs ! (off bs + (len bs - 1)) AND NOT (drop_bit (unat L mod 8) 0xff)]]
            else h))"
proof -
  let ?nB = "if L mod 8 \<noteq> 0 then L div 8 + 1 else L div 8"
  have nB: "unat ?nB = (unat L + 7) div 8"
    by (rule unat_nBytes)
  have check: "((of_nat (len bs) :: uint32) < ?nB) = (len bs mod 2 ^ 32 < (unat L + 7) div 8)"
    unfolding word_less_nat_alt nB by (simp add: unat_of_nat)
  show ?thesis
  proof (cases "len bs mod 2 ^ 32 < (unat L + 7) div 8")
    case True
    with check show ?thesis
      by (simp add: NewBytes_def calcSize_eq del: of_nat_less_iff)
  next
    case False
    have "len bs mod 2 ^ 32 \<le> len bs"
      by simp
    with False assms have fits: "(unat L + 7) div 8 \<le> cap bs" and le: "(unat L + 7) div 8 \<le> len bs"
      by simp_all
    have pos: "0 < len bs" if "unat L mod 8 \<noteq> 0"
    proof -
      from that have "0 < (unat L + 7) div 8" by presburger
      with le show ?thesis by simp
    qed
    have idx: "nat (int (len bs) - 1) = len bs - 1"
      by simp
    from False check have nocheck: "\<not> (of_nat (len bs) :: uint32) < ?nB"
      by simp
    show ?thesis
    proof (cases "unat L mod 8 = 0")
      case True
      with False fits nocheck nB show ?thesis
        by (simp add: NewBytes_def calcSize_eq slice_prefix_def mod8_eq_0_iff unat_div8)
    next
      case nz: False
      from pos [OF nz] have inrange: "0 \<le> int (len bs) - 1 \<and> int (len bs) - 1 < int (len bs)"
        by simp
      from nz have nz': "L mod 8 \<noteq> 0"
        by (simp add: mod8_eq_0_iff)
      from nB nz' have nB': "unat (L div 8 + 1) = (unat L + 7) div 8"
        by simp
      from nocheck nz' have nocheck': "\<not> (of_nat (len bs) :: uint32) < L div 8 + 1"
        by simp
      show ?thesis
        using False nz nz' fits nocheck' inrange
        by (simp add: NewBytes_def calcSize_eq slice_prefix_def slice_modify_eq nB' idx unat_mod8
            del: of_nat_less_iff)
    qed
  qed
qed

lemma bit_mask_last:
  assumes "m < 8 - n"
  shows "\<not> bit ((v :: byte) AND NOT (drop_bit n 0xff)) m"
proof -
  have "(0xff :: byte) = mask 8"
    by (simp add: mask_eq_exp_minus_1)
  then have "bit (0xff :: byte) (n + m) = (n + m < 8)"
    by (simp only: bit_mask_iff) simp
  moreover from assms have "n + m < 8"
    by simp
  ultimately have "bit (drop_bit n (0xff :: byte)) m"
    by (simp add: bit_drop_bit_eq)
  then show ?thesis
    by (simp add: bit_and_iff bit_not_iff)
qed

lemma valid_big: "valid_slice big_heap big_slice"
  by (simp add: valid_slice_def big_heap_def big_slice_def)

section \<open>Construction\<close>

lemma New_len_no_overflow:
  assumes "unat L + 7 < 2 ^ 32"
  shows "len (Bytes (fst (New L h))) = (unat L + 7) div 8"
  using I1_New [OF assms, of h] by (simp add: I1_def Bytes_def New_eq)

text \<open>
  Claim C4 (New allocates exactly \<open>ceil(L / 8)\<close> bytes for every uint32 \<open>L\<close>) fails at the
  top of the range: \<open>length + 7\<close> is computed in uint32 and wraps. At
  \<open>L = 4294967295\<close> the buffer has 0 bytes where \<open>ceil(L / 8) = 536870912\<close>.
\<close>

theorem New_length_overflow:
  "len (Bytes (fst (New 4294967295 h))) = 0 \<and>
   (unat (4294967295 :: uint32) + 7) div 8 = 536870912"
  by (simp add: New_eq Bytes_def)

text \<open>
  Claim C2 (round trip: after New(L) and Set on the indices of \<open>S\<close>, Test(i) is true iff
  \<open>i\<close> is in \<open>S\<close>) fails at \<open>L = 4294967295\<close>, \<open>S = {0}\<close>: the buffer New made is
  empty, so Set(0) and Test(0) pass the index check and then panic on the byte access.
\<close>

theorem New_max_length_unusable:
  "fst (New 4294967295 h0) =
     \<lparr>b = \<lparr>array = length h0, off = 0, len = 0, cap = 0\<rparr>, length' = 4294967295\<rparr> \<and>
   Set (fst (New 4294967295 h0)) 0 (snd (New 4294967295 h0)) =
     (Inl IndexOutOfRange, snd (New 4294967295 h0)) \<and>
   Test (fst (New 4294967295 h0)) 0 (snd (New 4294967295 h0)) = Inl IndexOutOfRange"
  by (simp add: New_eq Set_eq Test_eq)

section \<open>Index checks and frames\<close>

text \<open>
  Claim C6: each of Test, Set, Clear and SetTo panics with "index out of bound" (the
  IndexOutOfBounds condition, raised by checkIndex) iff \<open>i \<ge> Len()\<close>, for every Bitfield
  and so for every length including 0; and a call that panics leaves the heap as it
  was. Test only reads the heap.
\<close>

theorem index_out_of_bound_iff:
  "(Test bf i h = Inl (Panic ''index out of bound'') \<longleftrightarrow> Len bf \<le> i) \<and>
   (fst (Set bf i h) = Inl (Panic ''index out of bound'') \<longleftrightarrow> Len bf \<le> i) \<and>
   (fst (Clear bf i h) = Inl (Panic ''index out of bound'') \<longleftrightarrow> Len bf \<le> i) \<and>
   (fst (SetTo bf i v h) = Inl (Panic ''index out of bound'') \<longleftrightarrow> Len bf \<le> i) \<and>
   (\<forall>e. fst (Set bf i h) = Inl e \<longrightarrow> snd (Set bf i h) = h) \<and>
   (\<forall>e. fst (Clear bf i h) = Inl e \<longrightarrow> snd (Clear bf i h) = h) \<and>
   (\<forall>e. fst (SetTo bf i v h) = Inl e \<longrightarrow> snd (SetTo bf i v h) = h)"
  by (simp add: Test_eq Set_eq Clear_eq SetTo_eq Len_def)

theorem index_out_of_bound_iff_witness:
  "Test (fst (New 0 [])) 0 (snd (New 0 [])) = Inl (Panic ''index out of bound'') \<and>
   fst (Set (fst (New 0 [])) 0 (snd (New 0 []))) = Inl (Panic ''index out of bound'') \<and>
   snd (Set (fst (New 0 [])) 0 (snd (New 0 []))) = snd (New 0 []) \<and>
   fst (Clear (fst (New 0 [])) 0 (snd (New 0 []))) = Inl (Panic ''index out of bound'') \<and>
   snd (Clear (fst (New 0 [])) 0 (snd (New 0 []))) = snd (New 0 []) \<and>
   fst (SetTo (fst (New 0 [])) 0 True (snd (New 0 []))) = Inl (Panic ''index out of bound'') \<and>
   snd (SetTo (fst (New 0 [])) 0 True (snd (New 0 []))) = snd (New 0 [])"
  using index_out_of_bound_iff [of "fst (New 0 [])" 0 "snd (New 0 [])" True]
  by (simp add: Len_def New_eq)

lemma calls_in_range_return:
  assumes "I1 bf" and "i < Len bf"
  shows "\<exists>t. Test bf i h = Inr t"
    and "fst (Set bf i h) = Inr ()"
    and "fst (Clear bf i h) = Inr ()"
    and "fst (SetTo bf i v h) = Inr ()"
proof -
  from assms(2) have "\<not> length' bf \<le> i"
    by (simp add: Len_def not_le)
  moreover from assms have "unat i div 8 < len (b bf)"
    by (simp add: I1_byte_in_range Len_def)
  ultimately show "\<exists>t. Test bf i h = Inr t"
    and "fst (Set bf i h) = Inr ()"
    and "fst (Clear bf i h) = Inr ()"
    and "fst (SetTo bf i v h) = Inr ()"
    by (simp_all add: Test_eq Set_eq Clear_eq SetTo_eq)
qed

text \<open>
  Claim C10: Set(i) and Clear(i) leave every other bit as it was: for \<open>j \<noteq> i\<close>, Test(j)
  returns the same before and after the call. The Bitfield value, and with it Len() and
  the slice header of the buffer, is not written by either call; no backing array changes
  its size. This holds for every \<open>i\<close> and \<open>j\<close>, in range or not.
\<close>

theorem Set_Clear_frame:
  assumes "j \<noteq> i"
  shows "Test bf j (snd (Set bf i h)) = Test bf j h \<and>
         Test bf j (snd (Clear bf i h)) = Test bf j h \<and>
         map length (snd (Set bf i h)) = map length h \<and>
         map length (snd (Clear bf i h)) = map length h"
  using assms by (simp add: Test_Set_other Test_Clear_other map_length_Set map_length_Clear)

theorem Set_Clear_frame_witness:
  "(4 :: uint32) \<noteq> 3 \<and>
   fst (Set (fst (New 20 [])) 3 (snd (New 20 []))) = Inr () \<and>
   Test (fst (New 20 [])) 3 (snd (Set (fst (New 20 [])) 3 (snd (New 20 [])))) = Inr True \<and>
   Test (fst (New 20 [])) 4 (snd (Set (fst (New 20 [])) 3 (snd (New 20 [])))) = Inr False \<and>
   Test (fst (New 20 [])) 4 (snd (Clear (fst (New 20 [])) 3 (snd (New 20 [])))) = Inr False"
proof -
  have ne: "(4 :: uint32) \<noteq> 3"
    by simp
  have before: "Test (fst (New 20 [])) 4 (snd (New 20 [])) = Inr False"
    by code_simp
  have here: "fst (Set (fst (New 20 [])) 3 (snd (New 20 []))) = Inr ()"
    "Test (fst (New 20 [])) 3 (snd (Set (fst (New 20 [])) 3 (snd (New 20 [])))) = Inr True"
    by code_simp+
  from Set_Clear_frame [OF ne, of "fst (New 20 [])" "snd (New 20 [])"] ne before here
  show ?thesis
    by simp
qed

section \<open>The scenario of length 20\<close>

lemma New_20:
  "New 20 h0 =
     (\<lparr>b = \<lparr>array = length h0, off = 0, len = 3, cap = 3\<rparr>, length' = 20\<rparr>, h0 @ [[0, 0, 0]])"
proof -
  have "unat (((20 :: uint32) + 7) div 8) = 3"
    by simp
  moreover have "replicate 3 (0 :: byte) = [0, 0, 0]"
    by (simp add: numeral_3_eq_3)
  ultimately show ?thesis
    by (simp add: New_eq)
qed

lemma Set_20:
  "Set \<lparr>b = \<lparr>array = length h0, off = 0, len = 3, cap = 3\<rparr>, length' = 20\<rparr> 0 (h0 @ [[0, 0, 0]]) =
     (Inr (), h0 @ [[0x80, 0, 0]])"
  "Set \<lparr>b = \<lparr>array = length h0, off = 0, len = 3, cap = 3\<rparr>, length' = 20\<rparr> 7 (h0 @ [[0x80, 0, 0]]) =
     (Inr (), h0 @ [[0x81, 0, 0]])"
  "Set \<lparr>b = \<lparr>array = length h0, off = 0, len = 3, cap = 3\<rparr>, length' = 20\<rparr> 8 (h0 @ [[0x81, 0, 0]]) =
     (Inr (), h0 @ [[0x81, 0x80, 0]])"
  "Set \<lparr>b = \<lparr>array = length h0, off = 0, len = 3, cap = 3\<rparr>, length' = 20\<rparr> 19 (h0 @ [[0x81, 0x80, 0]]) =
     (Inr (), h0 @ [[0x81, 0x80, 0x10]])"
  by (simp_all add: Set_eq)

lemma bytes_20:
  "slice_bytes (h0 @ [[0x81, 0x80, 0x10]]) \<lparr>array = length h0, off = 0, len = 3, cap = 3\<rparr> =
     [0x81, 0x80, 0x10]"
  by (rule slice_bytes_fresh) simp

text \<open>
  Claim C8: from New(20), in any heap, Set on bits 0, 7, 8 and 19 returns each time, and
  then Hex() is "818010", Count() is 4, All() is false, FirstSet(1) is (7, true) and
  FirstClear(0) is (1, true).
\<close>

theorem scenario_length_20:
  "(case New 20 h0 of (bf, h1) \<Rightarrow>
     case Set bf 0 h1 of (r0, h2) \<Rightarrow>
     case Set bf 7 h2 of (r1, h3) \<Rightarrow>
     case Set bf 8 h3 of (r2, h4) \<Rightarrow>
     case Set bf 19 h4 of (r3, h5) \<Rightarrow>
       r0 = Inr () \<and> r1 = Inr () \<and> r2 = Inr () \<and> r3 = Inr () \<and>
       Hex bf h5 = ''818010'' \<and> Count bf h5 = 4 \<and> \<not> All' bf h5 \<and>
       FirstSet bf 1 h5 = Inr (7, True) \<and> FirstClear bf 0 h5 = Inr (1, True))"
proof -
  let ?bf = "\<lparr>b = \<lparr>array = length h0, off = 0, len = 3, cap = 3\<rparr>, length' = 20\<rparr>"
  let ?h = "h0 @ [[0x81, 0x80, 0x10 :: byte]]"
  have hex: "Hex ?bf ?h = ''818010''"
    by (simp add: Hex_def bytes_20 hex_EncodeToString_def hextable_def)
  have count: "Count ?bf ?h = 4"
    by (simp add: Count_def bytes_20 countCache_def)
  then have all: "\<not> All' ?bf ?h"
    by (simp add: All'_def)
  have fs: "FirstSet ?bf 1 ?h = Inr (7, True)"
    by (simp add: FirstSet_def FirstSet_loop.simps Test_eq bytes_20 word_le_nat_alt word_less_nat_alt)
  have fc: "FirstClear ?bf 0 ?h = Inr (1, True)"
    by (simp add: FirstClear_def FirstClear_loop.simps Test_eq bytes_20 word_le_nat_alt word_less_nat_alt)
  show ?thesis
    by (simp only: New_20 Set_20 prod.case hex count all fs fc simp_thms)
qed

section \<open>Scan correctness\<close>

text \<open>
  The scans in a Bitfield whose buffer has \<open>ceil(length / 8)\<close> bytes (invariant I1):
  FirstSet(start) returns \<open>(r, true)\<close> with \<open>r\<close> the smallest index \<open>\<ge> start\<close> below Len()
  whose bit is set, or \<open>(0, false)\<close> when no index from \<open>start\<close> on has its bit set;
  FirstClear(start) is the same for clear bits; and from \<open>start \<ge> Len()\<close> both return
  \<open>(0, false)\<close>, in every Bitfield.
\<close>

lemma scan_correct:
  "(I1 bf \<longrightarrow>
      (case FirstSet bf start h of
         Inl e \<Rightarrow> False
       | Inr (r, found) \<Rightarrow>
           if found
           then start \<le> r \<and> r < Len bf \<and> Test bf r h = Inr True \<and>
                (\<forall>j. start \<le> j \<and> j < r \<longrightarrow> Test bf j h = Inr False)
           else r = 0 \<and> (\<forall>j. start \<le> j \<and> j < Len bf \<longrightarrow> Test bf j h = Inr False)) \<and>
      (case FirstClear bf start h of
         Inl e \<Rightarrow> False
       | Inr (r, found) \<Rightarrow>
           if found
           then start \<le> r \<and> r < Len bf \<and> Test bf r h = Inr False \<and>
                (\<forall>j. start \<le> j \<and> j < r \<longrightarrow> Test bf j h = Inr True)
           else r = 0 \<and> (\<forall>j. start \<le> j \<and> j < Len bf \<longrightarrow> Test bf j h = Inr True))) \<and>
   (Len bf \<le> start \<longrightarrow>
      FirstSet bf start h = Inr (0, False) \<and> FirstClear bf start h = Inr (0, False))"
proof (intro conjI impI)
  assume inv: "I1 bf"
  have two: "Test bf j h \<noteq> Inr True \<longleftrightarrow> Test bf j h = Inr False"
    "Test bf j h \<noteq> Inr False \<longleftrightarrow> Test bf j h = Inr True" if "j < length' bf" for j
    using Test_in_range [OF inv that, of h] by auto
  have below: "j < length' bf" if "j < r" "r < length' bf" for j r :: uint32
    using that by simp
  from FirstSet_loop_spec [OF inv, where h = h and i = start]
  show "case FirstSet bf start h of
         Inl e \<Rightarrow> False
       | Inr (r, found) \<Rightarrow>
           if found
           then start \<le> r \<and> r < Len bf \<and> Test bf r h = Inr True \<and>
                (\<forall>j. start \<le> j \<and> j < r \<longrightarrow> Test bf j h = Inr False)
           else r = 0 \<and> (\<forall>j. start \<le> j \<and> j < Len bf \<longrightarrow> Test bf j h = Inr False)"
    unfolding FirstSet_def Len_def
    by (auto split: sum.splits prod.splits if_splits simp add: two dest: below)
  from FirstClear_loop_spec [OF inv, where h = h and i = start]
  show "case FirstClear bf start h of
         Inl e \<Rightarrow> False
       | Inr (r, found) \<Rightarrow>
           if found
           then start \<le> r \<and> r < Len bf \<and> Test bf r h = Inr False \<and>
                (\<forall>j. start \<le> j \<and> j < r \<longrightarrow> Test bf j h = Inr True)
           else r = 0 \<and> (\<forall>j. start \<le> j \<and> j < Len bf \<longrightarrow> Test bf j h = Inr True)"
    unfolding FirstClear_def Len_def
    by (auto split: sum.splits prod.splits if_splits simp add: two dest: below)
next
  assume "Len bf \<le> start"
  then have "\<not> start < length' bf"
    by (simp add: Len_def not_less)
  then show "FirstSet bf start h = Inr (0, False)"
    by (simp add: FirstSet_def FirstSet_loop.simps)
next
  assume "Len bf \<le> start"
  then have "\<not> start < length' bf"
    by (simp add: Len_def not_less)
  then show "FirstClear bf start h = Inr (0, False)"
    by (simp add: FirstClear_def FirstClear_loop.simps)
qed

lemma scan_correct_example:
  "I1 \<lparr>b = \<lparr>array = 0, off = 0, len = 3, cap = 3\<rparr>, length' = 20\<rparr> \<and>
   FirstSet \<lparr>b = \<lparr>array = 0, off = 0, len = 3, cap = 3\<rparr>, length' = 20\<rparr> 1 [[0x81, 0x80, 0x10]] =
     Inr (7, True) \<and>
   Test \<lparr>b = \<lparr>array = 0, off = 0, len = 3, cap = 3\<rparr>, length' = 20\<rparr> 7 [[0x81, 0x80, 0x10]] =
     Inr True \<and>
   FirstClear \<lparr>b = \<lparr>array = 0, off = 0, len = 3, cap = 3\<rparr>, length' = 20\<rparr> 0 [[0x81, 0x80, 0x10]] =
     Inr (1, True) \<and>
   Test \<lparr>b = \<lparr>array = 0, off = 0, len = 3, cap = 3\<rparr>, length' = 20\<rparr> 1 [[0x81, 0x80, 0x10]] =
     Inr False \<and>
   Len \<lparr>b = \<lparr>array = 0, off = 0, len = 3, cap = 3\<rparr>, length' = 20\<rparr> \<le> 20 \<and>
   FirstSet \<lparr>b = \<lparr>array = 0, off = 0, len = 3, cap = 3\<rparr>, length' = 20\<rparr> 20 [[0x81, 0x80, 0x10]] =
     Inr (0, False)"
proof -
  let ?bf = "\<lparr>b = \<lparr>array = 0, off = 0, len = 3, cap = 3\<rparr>, length' = 20\<rparr>"
  let ?h = "[[0x81, 0x80, 0x10 :: byte]]"
  have inv: "I1 ?bf"
    by (simp add: I1_def)
  have top: "Len ?bf \<le> 20"
    by (simp add: Len_def)
  have fs: "FirstSet ?bf 1 ?h = Inr (7, True)" and fc: "FirstClear ?bf 0 ?h = Inr (1, True)"
    by code_simp+
  from scan_correct [of ?bf 1 ?h] scan_correct [of ?bf 0 ?h] scan_correct [of ?bf 20 ?h]
    inv top fs fc
  show ?thesis
    by simp
qed

text \<open>
  Claim C5 (in every container state FirstSet(start) and FirstClear(start) return the
  smallest index \<open>\<ge> start\<close> with the bit set, or clear, or not-found) fails in the
  container New makes for \<open>L = 4294967295\<close>: its buffer is empty, index 0 is below
  Len(), and both scans from 0 panic on the first byte access instead of returning.
\<close>

theorem New_max_length_scan_panics:
  "(0 :: uint32) < Len (fst (New 4294967295 h0)) \<and>
   len (Bytes (fst (New 4294967295 h0))) = 0 \<and>
   FirstSet (fst (New 4294967295 h0)) 0 (snd (New 4294967295 h0)) = Inl IndexOutOfRange \<and>
   FirstClear (fst (New 4294967295 h0)) 0 (snd (New 4294967295 h0)) = Inl IndexOutOfRange"
proof -
  let ?bf = "fst (New 4294967295 h0)" and ?h = "snd (New 4294967295 h0)"
  have inside: "(0 :: uint32) < length' ?bf"
    by (simp add: New_eq)
  have test: "Test ?bf 0 ?h = Inl IndexOutOfRange"
    by (simp add: New_eq Test_eq)
  have "FirstSet_loop ?bf ?h 0 = Inl IndexOutOfRange"
    by (subst FirstSet_loop.simps) (simp only: inside test if_True sum.case)
  moreover have "FirstClear_loop ?bf ?h 0 = Inl IndexOutOfRange"
    by (subst FirstClear_loop.simps) (simp only: inside test if_True sum.case)
  moreover have "len (Bytes ?bf) = 0"
    by (simp add: New_eq Bytes_def)
  ultimately show ?thesis
    using inside by (simp add: FirstSet_def FirstClear_def Len_def)
qed

section \<open>Count consistency\<close>

lemma do_calls_return:
  assumes "I1 bf" and "\<forall>c \<in> set cs. call_index c < Len bf"
  shows "fst (do_calls bf cs h) = Inr ()"
  using assms(2)
proof (induction cs arbitrary: h)
  case Nil
  then show ?case by simp
next
  case (Cons c cs)
  then have "call_index c < Len bf"
    by simp
  with assms(1) have "fst (do_call bf c h) = Inr ()"
    by (cases c) (simp_all add: calls_in_range_return)
  then obtain h' where "do_call bf c h = (Inr (), h')"
    by (cases "do_call bf c h") simp
  with Cons show ?case
    by simp
qed

text \<open>
  Claim C3: after New(L) and any sequence of Set, Clear and SetTo calls, Count() is the
  number of indices \<open>i < L\<close> for which Test(i) returns true. The sequence stops at a call
  that panics, with the heap as that call left it; \<open>h2\<close> is the heap where the sequence
  ends. When every index is valid and \<open>L + 7\<close> fits in 32 bits, no call panics and the
  whole sequence runs.
\<close>

theorem Count_consistency:
  assumes "New L h0 = (bf, h1)" and "do_calls bf cs h1 = (r, h2)"
  shows "unat (Count bf h2) = card {i. i < L \<and> Test bf i h2 = Inr True} \<and>
         (unat L + 7 < 2 ^ 32 \<and> (\<forall>c \<in> set cs. call_index c < L) \<longrightarrow> r = Inr ())"
proof -
  from assms(1) have bf: "bf = fst (New L h0)" and h1: "h1 = snd (New L h0)"
    by simp_all
  have L: "length' bf = L"
    by (simp add: bf New_eq)
  have "padding_clear h1 bf"
    unfolding bf h1 by (rule padding_clear_New)
  then have "padding_clear (snd (do_calls bf cs h1)) bf"
    by (rule padding_clear_do_calls)
  with assms(2) have pad: "padding_clear h2 bf"
    by simp
  have count: "unat (Count bf h2) = card {i. i < L \<and> Test bf i h2 = Inr True}"
  proof (cases "unat L + 7 < 2 ^ 32")
    case True
    then have "I1 bf"
      unfolding bf by (rule I1_New)
    from Count_consistent [OF this pad] L show ?thesis
      by simp
  next
    case False
    then have empty: "len (b bf) = 0"
      unfolding bf by (rule New_overflow_empty)
    then have "slice_bytes h2 (b bf) = []"
      by (simp add: slice_bytes_def)
    then have "Count bf h2 = 0"
      by (simp add: Count_def)
    moreover have "Test bf i h2 \<noteq> Inr True" for i
      using empty by (simp add: Test_eq)
    ultimately show ?thesis
      by simp
  qed
  have "r = Inr ()" if "unat L + 7 < 2 ^ 32" "\<forall>c \<in> set cs. call_index c < L"
  proof -
    from that(1) have "I1 bf"
      unfolding bf by (rule I1_New)
    moreover from that(2) L have "\<forall>c \<in> set cs. call_index c < Len bf"
      by (simp add: Len_def)
    ultimately have "fst (do_calls bf cs h1) = Inr ()"
      by (rule do_calls_return)
    with assms(2) show ?thesis
      by simp
  qed
  with count show ?thesis
    by blast
qed

theorem Count_consistency_witness:
  "New 20 [] = (\<lparr>b = \<lparr>array = 0, off = 0, len = 3, cap = 3\<rparr>, length' = 20\<rparr>, [[0, 0, 0]]) \<and>
   do_calls \<lparr>b = \<lparr>array = 0, off = 0, len = 3, cap = 3\<rparr>, length' = 20\<rparr>
     [CallSet 0, CallSet 7, CallClear 7, CallSetTo 8 True, CallSet 19] [[0, 0, 0]] =
     (Inr (), [[0x80, 0x80, 0x10]]) \<and>
   Count \<lparr>b = \<lparr>array = 0, off = 0, len = 3, cap = 3\<rparr>, length' = 20\<rparr> [[0x80, 0x80, 0x10]] = 3 \<and>
   card {i. i < 20 \<and>
            Test \<lparr>b = \<lparr>array = 0, off = 0, len = 3, cap = 3\<rparr>, length' = 20\<rparr> i
              [[0x80, 0x80, 0x10]] = Inr True} = 3"
proof -
  let ?bf = "\<lparr>b = \<lparr>array = 0, off = 0, len = 3, cap = 3\<rparr>, length' = 20\<rparr>"
  have new: "New 20 [] = (?bf, [[0, 0, 0]])"
    by code_simp
  have run: "do_calls ?bf [CallSet 0, CallSet 7, CallClear 7, CallSetTo 8 True, CallSet 19] [[0, 0, 0]] =
     (Inr (), [[0x80, 0x80, 0x10]])"
    by code_simp
  have count: "Count ?bf [[0x80, 0x80, 0x10]] = 3"
    by code_simp
  from Count_consistency [OF new run] new run count show ?thesis
    by simp
qed

section \<open>Import: which byte is masked, and when the call panics\<close>

text \<open>
  Claim C1 (NewBytes clears the padding bits of the last byte of the container's buffer
  whenever \<open>len(b) \<ge> ceil(L / 8)\<close>) fails when the caller's slice is longer than needed:
  the mask is applied to \<^verbatim>\<open>b[len(b)-1]\<close>, the last byte of the caller's slice, and the
  container's last byte \<^verbatim>\<open>b[nBytes-1]\<close> keeps its stray bits. With two bytes \<open>0xff\<close> and
  \<open>L = 4\<close> the container's only byte stays \<open>0xff\<close>: its low-order bit 0, a padding bit,
  is still set.
\<close>

theorem NewBytes_longer_buffer_keeps_padding:
  "valid_slice [[0xff, 0xff]] \<lparr>array = 0, off = 0, len = 2, cap = 2\<rparr> \<and>
   (unat (4 :: uint32) + 7) div 8 \<le> len \<lparr>array = 0, off = 0, len = 2, cap = 2\<rparr> \<and>
   NewBytes \<lparr>array = 0, off = 0, len = 2, cap = 2\<rparr> 4 [[0xff, 0xff]] =
     (Inr \<lparr>b = \<lparr>array = 0, off = 0, len = 1, cap = 2\<rparr>, length' = 4\<rparr>, [[0xff, 0xf0]]) \<and>
   slice_bytes [[0xff, 0xf0]] \<lparr>array = 0, off = 0, len = 1, cap = 2\<rparr> = [0xff] \<and>
   bit (last (slice_bytes [[0xff, 0xf0]] \<lparr>array = 0, off = 0, len = 1, cap = 2\<rparr>)) 0"
  by code_simp

text \<open>
  Claim C7 (NewBytes panics iff \<open>len(b) < ceil(L / 8)\<close>) fails for a slice of \<open>2 ^ 32\<close>
  bytes and \<open>L = 1\<close>: \<^verbatim>\<open>uint32(len(b))\<close> is 0, so the call panics although one byte
  was enough.
\<close>

theorem NewBytes_big_slice_panics:
  "valid_slice big_heap big_slice \<and>
   \<not> len big_slice < (unat (1 :: uint32) + 7) div 8 \<and>
   NewBytes big_slice 1 big_heap =
     (Inl (Panic ''not enough bytes in slice for specified length''), big_heap)"
proof -
  have "len big_slice \<le> cap big_slice"
    by (simp add: big_slice_def)
  from NewBytes_eq [OF this, of 1 big_heap] show ?thesis
    by (simp add: valid_big) (simp add: big_slice_def)
qed

text \<open>
  Below \<open>2 ^ 32\<close> bytes the conversion keeps \<open>len(b)\<close>: the call panics iff the slice is
  too short; when it returns, the container's buffer is the caller's slice cut to
  \<open>ceil(L / 8)\<close> bytes (same backing array, same position: no copy) and Len() is \<open>L\<close>.
\<close>

lemma NewBytes_below_2_32:
  assumes "valid_slice h bs" and "len bs < 2 ^ 32"
  shows "fst (NewBytes bs L h) = Inl (Panic ''not enough bytes in slice for specified length'')
           \<longleftrightarrow> len bs < (unat L + 7) div 8"
    and "(unat L + 7) div 8 \<le> len bs \<Longrightarrow>
           \<exists>bf. fst (NewBytes bs L h) = Inr bf \<and>
                Bytes bf = bs\<lparr>len := (unat L + 7) div 8\<rparr> \<and> Len bf = L"
proof -
  from assms(1) have cap: "len bs \<le> cap bs"
    by (simp add: valid_slice_def)
  from assms(2) have small: "len bs mod 4294967296 = len bs"
    by simp
  show "fst (NewBytes bs L h) = Inl (Panic ''not enough bytes in slice for specified length'')
           \<longleftrightarrow> len bs < (unat L + 7) div 8"
    by (simp add: NewBytes_eq [OF cap] small)
  show "\<exists>bf. fst (NewBytes bs L h) = Inr bf \<and>
                Bytes bf = bs\<lparr>len := (unat L + 7) div 8\<rparr> \<and> Len bf = L"
    if "(unat L + 7) div 8 \<le> len bs"
    using that by (simp add: NewBytes_eq [OF cap] small Bytes_def Len_def not_less [symmetric])
qed

text \<open>
  Claim C9 (for every \<open>b\<close> with \<open>len(b) > ceil(L / 8)\<close> and \<open>L mod 8 \<noteq> 0\<close>, NewBytes
  clears the low-order bits of \<^verbatim>\<open>b[len(b)-1]\<close>) fails for the slice of \<open>2 ^ 32\<close> bytes
  \<open>0xff\<close> and \<open>L = 1\<close>, by the truncation of \<^verbatim>\<open>uint32(len(b))\<close>: the call panics before
  the mask, and bit 0 of the last byte is still set.
\<close>

theorem NewBytes_big_slice_not_masked:
  "valid_slice big_heap big_slice \<and>
   (unat (1 :: uint32) + 7) div 8 < len big_slice \<and>
   unat (1 :: uint32) mod 8 \<noteq> 0 \<and>
   bit (slice_bytes (snd (NewBytes big_slice 1 big_heap)) big_slice ! (len big_slice - 1)) 0"
proof -
  have "len big_slice \<le> cap big_slice"
    by (simp add: big_slice_def)
  from NewBytes_eq [OF this, of 1 big_heap]
  have "snd (NewBytes big_slice 1 big_heap) = big_heap"
    by (simp add: big_slice_def)
  moreover have "slice_bytes big_heap big_slice ! (len big_slice - 1) = 0xff"
    by (simp add: nth_slice_bytes big_slice_def big_heap_def)
  ultimately show ?thesis
    by (simp add: valid_big) (simp add: big_slice_def)
qed

text \<open>
  Where the size check lets the call through: for every valid slice \<open>b\<close> and length \<open>L\<close>
  with \<open>len(b) > ceil(L / 8)\<close>, \<open>L mod 8 \<noteq> 0\<close> and \<open>uint32(len(b)) \<ge> ceil(L / 8)\<close> (true of
  every slice shorter than \<open>2 ^ 32\<close> bytes), NewBytes returns the container on the first
  \<open>ceil(L / 8)\<close> bytes of \<open>b\<close>, clears the low-order \<open>8 - L mod 8\<close> bits of
  \<^verbatim>\<open>b[len(b)-1]\<close>, a byte outside the container's buffer, and writes no byte of \<open>b\<close> in
  \<open>[0, ceil(L / 8))\<close>.
\<close>

lemma NewBytes_masks_last_byte_of_argument:
  assumes "valid_slice h bs"
    and "(unat L + 7) div 8 < len bs"
    and "unat L mod 8 \<noteq> 0"
    and "(unat L + 7) div 8 \<le> len bs mod 2 ^ 32"
  shows "fst (NewBytes bs L h) = Inr \<lparr>b = bs\<lparr>len := (unat L + 7) div 8\<rparr>, length' = L\<rparr> \<and>
         (unat L + 7) div 8 \<le> len bs - 1 \<and>
         (\<forall>m < 8 - unat L mod 8.
            \<not> bit (slice_bytes (snd (NewBytes bs L h)) bs ! (len bs - 1)) m) \<and>
         (\<forall>k < (unat L + 7) div 8.
            slice_bytes (snd (NewBytes bs L h)) bs ! k = slice_bytes h bs ! k)"
proof -
  from assms(1) have cap: "len bs \<le> cap bs"
    and arr: "array bs < length h"
    and fit: "off bs + len bs \<le> length (h ! array bs)"
    by (simp_all add: valid_slice_def)
  from assms(2) have pos: "len bs - 1 < len bs" and last: "off bs + (len bs - 1) < length (h ! array bs)"
    using fit by simp_all
  have "k < len bs \<and> k \<noteq> len bs - 1" if "k < (unat L + 7) div 8" for k
    using that assms(2) by simp
  with arr last pos assms(2,3,4) show ?thesis
    by (simp add: NewBytes_eq [OF cap] nth_slice_bytes nth_heap_upd bit_mask_last not_less [symmetric])
qed

lemma NewBytes_masks_last_byte_of_argument_example:
  "valid_slice [[0xff, 0xff]] \<lparr>array = 0, off = 0, len = 2, cap = 2\<rparr> \<and>
   (unat (4 :: uint32) + 7) div 8 < len \<lparr>array = 0, off = 0, len = 2, cap = 2\<rparr> \<and>
   unat (4 :: uint32) mod 8 \<noteq> 0 \<and>
   (unat (4 :: uint32) + 7) div 8 \<le> len \<lparr>array = 0, off = 0, len = 2, cap = 2\<rparr> mod 2 ^ 32 \<and>
   fst (NewBytes \<lparr>array = 0, off = 0, len = 2, cap = 2\<rparr> 4 [[0xff, 0xff]]) =
     Inr \<lparr>b = \<lparr>array = 0, off = 0, len = 1, cap = 2\<rparr>, length' = 4\<rparr> \<and>
   \<not> bit (slice_bytes (snd (NewBytes \<lparr>array = 0, off = 0, len = 2, cap = 2\<rparr> 4 [[0xff, 0xff]]))
           \<lparr>array = 0, off = 0, len = 2, cap = 2\<rparr> ! 1) 3 \<and>
   slice_bytes (snd (NewBytes \<lparr>array = 0, off = 0, len = 2, cap = 2\<rparr> 4 [[0xff, 0xff]]))
           \<lparr>array = 0, off = 0, len = 2, cap = 2\<rparr> ! 0 = 0xff"
proof -
  have v: "valid_slice [[0xff, 0xff]] \<lparr>array = 0, off = 0, len = 2, cap = 2\<rparr>"
    by (simp add: valid_slice_def)
  have s: "slice_bytes [[0xff, 0xff]] \<lparr>array = 0, off = 0, len = 2, cap = 2\<rparr> ! 0 = 0xff"
    by (simp add: nth_slice_bytes)
  from NewBytes_masks_last_byte_of_argument [OF v, of 4] v s show ?thesis
    by simp
qed

section \<open>Where the failing claims do hold\<close>

lemma valid_slice_heap_upd: "valid_slice (h[a := (h ! a)[j := v]]) s = valid_slice h s"
  by (simp add: valid_slice_def length_heap_upd)

lemma valid_slice_Set: "valid_slice (snd (Set bf i h)) s = valid_slice h s"
  by (simp add: Set_eq valid_slice_heap_upd)

lemma Test_Set_same:
  assumes "valid_slice h (b bf)" and "I1 bf" and "i < length' bf"
  shows "fst (Set bf i h) = Inr ()" and "Test bf i (snd (Set bf i h)) = Inr True"
proof -
  from assms(2,3) have byte: "unat i div 8 < len (b bf)"
    by (rule I1_byte_in_range)
  from assms(3) have chk: "\<not> length' bf \<le> i"
    by (simp add: not_le)
  from assms(1) byte have arr: "array (b bf) < length h"
    and fit: "off (b bf) + unat i div 8 < length (h ! array (b bf))"
    by (simp_all add: valid_slice_def)
  show "fst (Set bf i h) = Inr ()"
    using byte chk by (simp add: Set_eq)
  show "Test bf i (snd (Set bf i h)) = Inr True"
    using byte chk arr fit
    by (simp add: Test_eq Set_eq nth_slice_bytes nth_heap_upd bit_set_mask)
qed

lemma Test_New:
  assumes "unat L + 7 < 2 ^ 32" and "i < L"
  shows "Test (fst (New L h)) i (snd (New L h)) = Inr False"
proof -
  have L: "length' (fst (New L h)) = L"
    by (simp add: New_eq)
  from assms(1) have inv: "I1 (fst (New L h))"
    by (rule I1_New)
  with assms(2) L have "unat i div 8 < len (b (fst (New L h)))"
    by (simp add: I1_byte_in_range)
  then have "unat i div 8 < unat ((L + 7) div 8)"
    by (simp add: New_eq)
  with Test_in_range [OF inv, of i "snd (New L h)"] assms(2) L show ?thesis
    by (simp add: slice_bytes_New)
qed

lemma valid_slice_New: "valid_slice (snd (New L h)) (b (fst (New L h)))"
  by (simp add: New_eq valid_slice_def)

lemma Set_all_round_trip:
  assumes "valid_slice h (b bf)" and "I1 bf"
    and "\<forall>i \<in> set xs. i < length' bf"
    and "\<forall>i. i < length' bf \<longrightarrow> Test bf i h = Inr (i \<in> A)"
  shows "fst (do_calls bf (map CallSet xs) h) = Inr () \<and>
         (\<forall>i. i < length' bf \<longrightarrow>
            Test bf i (snd (do_calls bf (map CallSet xs) h)) = Inr (i \<in> A \<union> set xs))"
  using assms(1,3,4)
proof (induction xs arbitrary: h A)
  case Nil
  then show ?case by simp
next
  case (Cons x xs)
  from Cons.prems(2) have x: "x < length' bf"
    by simp
  let ?h = "snd (Set bf x h)"
  from Test_Set_same [OF Cons.prems(1) assms(2) x]
  have ret: "fst (Set bf x h) = Inr ()" and same: "Test bf x ?h = Inr True"
    by simp_all
  have valid: "valid_slice ?h (b bf)"
    using Cons.prems(1) by (simp add: valid_slice_Set)
  have bits: "\<forall>i. i < length' bf \<longrightarrow> Test bf i ?h = Inr (i \<in> insert x A)"
  proof (intro allI impI)
    fix i
    assume i: "i < length' bf"
    show "Test bf i ?h = Inr (i \<in> insert x A)"
    proof (cases "i = x")
      case True
      with same show ?thesis by simp
    next
      case False
      with Test_Set_other [OF False, of bf h] Cons.prems(3) i show ?thesis
        by simp
    qed
  qed
  from Cons.prems(2) have rest: "\<forall>i \<in> set xs. i < length' bf"
    by simp
  from ret have step: "do_calls bf (map CallSet (x # xs)) h = do_calls bf (map CallSet xs) ?h"
    by (cases "Set bf x h") simp
  from Cons.IH [OF valid rest bits] show ?case
    unfolding step by simp
qed

text \<open>
  The round trip for every length whose size computation does not wrap
  (\<open>L \<le> 4294967288\<close>): starting from New(L), Set on the indices of the list \<open>xs\<close>, all
  below \<open>L\<close>, returns each time, and then Test(i) is true iff \<open>i\<close> is in \<open>xs\<close>.
\<close>

lemma New_Set_Test_round_trip:
  assumes "unat L + 7 < 2 ^ 32" and "New L h0 = (bf, h1)" and "\<forall>i \<in> set xs. i < L"
  shows "fst (do_calls bf (map CallSet xs) h1) = Inr () \<and>
         (\<forall>i. i < L \<longrightarrow> Test bf i (snd (do_calls bf (map CallSet xs) h1)) = Inr (i \<in> set xs))"
proof -
  from assms(2) have bf: "bf = fst (New L h0)" and h1: "h1 = snd (New L h0)"
    by simp_all
  have L: "length' bf = L"
    by (simp add: bf New_eq)
  have valid: "valid_slice h1 (b bf)"
    unfolding bf h1 by (rule valid_slice_New)
  have inv: "I1 bf"
    unfolding bf using assms(1) by (rule I1_New)
  have zero: "\<forall>i. i < length' bf \<longrightarrow> Test bf i h1 = Inr (i \<in> {})"
    unfolding L unfolding bf h1 using Test_New [OF assms(1), of _ h0] by simp
  from assms(3) L have "\<forall>i \<in> set xs. i < length' bf"
    by simp
  from Set_all_round_trip [OF valid inv this zero] L show ?thesis
    by simp
qed

lemma last_byte_padding:
  assumes "unat L \<le> k" and "k < 8 * ((unat L + 7) div 8)"
  shows "unat L mod 8 \<noteq> 0" and "k div 8 = (unat L + 7) div 8 - 1" and "7 - k mod 8 < 8 - unat L mod 8"
proof -
  define q r where "q = unat L div 8" and "r = unat L mod 8"
  have L: "unat L = 8 * q + r" and r: "r < 8"
    by (simp_all add: q_def r_def)
  have n: "(unat L + 7) div 8 = q + (r + 7) div 8"
    unfolding L by (simp add: add.assoc)
  show nz: "unat L mod 8 \<noteq> 0"
  proof
    assume "unat L mod 8 = 0"
    then have "r = 0" by (simp add: r_def)
    with n L assms show False by simp
  qed
  then have "0 < r" by (simp add: r_def)
  with r have "(r + 7) div 8 = 1"
    by simp
  with n have n1: "(unat L + 7) div 8 = q + 1"
    by simp
  define d where "d = k - 8 * q"
  from assms L n1 have k: "k = 8 * q + d" and d: "r \<le> d" "d < 8"
    by (simp_all add: d_def)
  from d(2) have "k div 8 = q" and kmod: "k mod 8 = d"
    unfolding k by simp_all
  with n1 show "k div 8 = (unat L + 7) div 8 - 1"
    by simp
  from kmod d r show "7 - k mod 8 < 8 - unat L mod 8"
    by (simp add: r_def)
qed

text \<open>
  The import when the caller's slice has exactly \<open>ceil(L / 8)\<close> bytes: the masked byte is
  the container's last byte, and the padding is clear.
\<close>

lemma NewBytes_exact_clears_padding:
  assumes "valid_slice h bs" and "len bs = (unat L + 7) div 8"
  shows "fst (NewBytes bs L h) = Inr \<lparr>b = bs, length' = L\<rparr> \<and>
         padding_clear (snd (NewBytes bs L h)) \<lparr>b = bs, length' = L\<rparr>"
proof -
  from assms(1) have cap: "len bs \<le> cap bs"
    and arr: "array bs < length h"
    and fit: "off bs + len bs \<le> length (h ! array bs)"
    by (simp_all add: valid_slice_def)
  have "unat L < 2 ^ 32"
    using unsigned_less [of L, where 'a = nat] by simp
  with assms(2) have "len bs < 4294967296"
    by simp
  then have small: "len bs mod 4294967296 = len bs"
    by simp
  have same: "bs\<lparr>len := (unat L + 7) div 8\<rparr> = bs"
    using assms(2) by simp
  have ret: "NewBytes bs L h =
      (Inr \<lparr>b = bs, length' = L\<rparr>,
       if unat L mod 8 \<noteq> 0
       then h[array bs := (h ! array bs)[off bs + (len bs - 1) :=
              h ! array bs ! (off bs + (len bs - 1)) AND NOT (drop_bit (unat L mod 8) 0xff)]]
       else h)"
  proof -
    from assms(2) have "\<not> len bs < (unat L + 7) div 8"
      by simp
    then show ?thesis
      by (simp add: NewBytes_eq [OF cap] small same)
  qed
  have "\<not> bit (snd (NewBytes bs L h) ! array bs ! (off bs + k div 8)) (7 - k mod 8)"
    if "unat L \<le> k" "k < 8 * len bs" for k
  proof -
    from that assms(2) have k: "k < 8 * ((unat L + 7) div 8)"
      by simp
    note lp = last_byte_padding [OF that(1) k]
    from lp(2) assms(2) have byte: "k div 8 = len bs - 1"
      by simp
    from k have "0 < len bs"
      using assms(2) by (cases "len bs = 0") simp_all
    with fit have "off bs + (len bs - 1) < length (h ! array bs)"
      by simp
    with arr lp(1,3) show ?thesis
      unfolding ret byte by (simp add: nth_heap_upd bit_mask_last)
  qed
  then have "padding_clear (snd (NewBytes bs L h)) \<lparr>b = bs, length' = L\<rparr>"
    by (simp add: padding_clear_iff)
  with ret show ?thesis
    by simp
qed

lemma bit_after_ClearAll_loop:
  assumes "bit (snd (ClearAll_loop s idxs h) ! array s ! j) m"
  shows "bit (h ! array s ! j) m"
  using assms
proof (induction idxs arbitrary: h)
  case Nil
  then show ?case by simp
next
  case (Cons i idxs)
  show ?case
  proof (cases "0 \<le> int i \<and> int i < int (len s)")
    case True
    let ?h = "h[array s := (h ! array s)[off s + i := 0]]"
    from True have "slice_set h s (int i) 0 = (Inr (), ?h)"
      by (simp add: slice_set_def)
    with Cons.prems have "bit (snd (ClearAll_loop s idxs ?h) ! array s ! j) m"
      by simp
    then have "bit (?h ! array s ! j) m"
      by (rule Cons.IH)
    then show ?thesis
      by (simp add: nth_heap_upd split: if_splits)
  next
    case False
    then have "slice_set h s (int i) 0 = (Inl IndexOutOfRange, h)"
      by (simp add: slice_set_def)
    with Cons.prems show ?thesis
      by simp
  qed
qed

text \<open>
  Once clear, the padding stays clear under Set, Clear and SetTo
  (\<open>padding_clear_do_calls\<close>) and under ClearAll.
\<close>

lemma padding_clear_ClearAll:
  assumes "padding_clear h bf"
  shows "padding_clear (snd (ClearAll bf h)) bf"
  using assms by (auto simp add: padding_clear_iff ClearAll_def dest: bit_after_ClearAll_loop)

end
